theory Spec2Isabelle
  imports Main "HOL-Library.Multiset"
begin

section \<open>Bio\_Util.cpp: nucleotide counts per FASTA record\<close>

text \<open>
  The mapped file \<open>mem\<close> is a byte list. \<open>BigInt\<close> (\<open>uint64_t\<close>) offsets and the
  \<open>size_t\<close> counters are natural numbers: every offset is at most the file size, every
  counter is at most the length of the range it counts, and a file size is an \<open>off_t\<close>,
  so none of these ever reaches \<open>2 ^ 64\<close>. The two places where the unsigned arithmetic
  of the source does leave the naturals are written out: \<open>indicies.size() - 1\<close> on an
  empty vector, and the conversion of the signed \<open>numThreads\<close> to \<open>uint64_t\<close> in
  \<open>size / numThreads\<close>. Behaviour that C++ leaves undefined is a \<open>fault\<close>.
\<close>

subsection \<open>Faults and reads\<close>

datatype fault = OutOfBounds | DivideByZero | Indeterminate

text \<open>\<open>mem[i]\<close>: reading past the mapping is undefined in the source.\<close>

definition byteAt :: "string \<Rightarrow> nat \<Rightarrow> fault + char" where
  "byteAt mem i = (if i < length mem then Inr (mem ! i) else Inl OutOfBounds)"

text \<open>\<open>indicies[k]\<close> on the vector of offsets.\<close>

definition at :: "nat list \<Rightarrow> nat \<Rightarrow> fault + nat" where
  "at indicies k = (if k < length indicies then Inr (indicies ! k) else Inl OutOfBounds)"

subsection \<open>collectCounts\<close>

record Counts =
  G :: nat
  C :: nat
  A :: nat
  T :: nat
  N :: nat
  total :: nat

definition noCounts :: Counts where
  "noCounts = \<lparr>G = 0, C = 0, A = 0, T = 0, N = 0, total = 0\<rparr>"

text \<open>The \<open>switch\<close> of \<open>collectCounts\<close>; a byte with no \<open>case\<close> falls through.\<close>

definition tally :: "char \<Rightarrow> Counts \<Rightarrow> Counts" where
  "tally nucleotide c =
     (if nucleotide = CHR ''G'' then c\<lparr>G := G c + 1, total := total c + 1\<rparr>
      else if nucleotide = CHR ''C'' then c\<lparr>C := C c + 1, total := total c + 1\<rparr>
      else if nucleotide = CHR ''A'' then c\<lparr>A := A c + 1, total := total c + 1\<rparr>
      else if nucleotide = CHR ''T'' then c\<lparr>T := T c + 1, total := total c + 1\<rparr>
      else if nucleotide = CHR ''N'' then c\<lparr>N := N c + 1, total := total c + 1\<rparr>
      else c)"

text \<open>
  \<open>for (BigInt i = start; i < end; i++)\<close> of \<open>collectCounts\<close>; the source's \<open>end\<close>
  is \<open>fin\<close> here.
\<close>

function countLoop :: "string \<Rightarrow> nat \<Rightarrow> nat \<Rightarrow> Counts \<Rightarrow> fault + Counts" where
  "countLoop mem i fin c =
     (if i < fin then
        (case byteAt mem i of
           Inl e \<Rightarrow> Inl e
         | Inr nucleotide \<Rightarrow> countLoop mem (Suc i) fin (tally nucleotide c))
      else Inr c)"
  by pat_completeness auto
termination
  by (relation "measure (\<lambda>(mem, i, fin, c). fin - i)") auto

declare countLoop.simps [simp del]

text \<open>
  A record's statistics: the arguments \<open>collectCounts\<close> hands to \<open>printStats\<close>.
\<close>

type_synonym stats = "string \<times> Counts"

definition collectCounts :: "string \<Rightarrow> nat \<Rightarrow> nat \<Rightarrow> string \<Rightarrow> fault + stats" where
  "collectCounts desc start fin mem =
     (case countLoop mem start fin noCounts of
        Inl e \<Rightarrow> Inl e
      | Inr c \<Rightarrow> Inr (desc, c))"

text \<open>The bytes of \<open>mem\<close> in \<open>[start, fin)\<close>.\<close>

definition slice :: "string \<Rightarrow> nat \<Rightarrow> nat \<Rightarrow> string" where
  "slice mem start fin = take (fin - start) (drop start mem)"

subsection \<open>printStats\<close>

text \<open>\<open>operator<<\<close> on a \<open>size_t\<close>: the decimal digits.\<close>

function showNat :: "nat \<Rightarrow> string" where
  "showNat n = (if n < 10 then [char_of (48 + n)] else showNat (n div 10) @ [char_of (48 + n mod 10)])"
  by pat_completeness auto
termination
  by (relation "measure id") auto

declare showNat.simps [simp del]

text \<open>The text of \<open>table\<close>, which \<open>printStats\<close> builds before it takes the lock.\<close>

definition table :: "string \<Rightarrow> nat \<Rightarrow> nat \<Rightarrow> nat \<Rightarrow> nat \<Rightarrow> nat \<Rightarrow> nat \<Rightarrow> string" where
  "table desc g c a t n tot =
     ''\<newline>'' @ desc @ ''\<newline>\<newline>''
     @ ''G: '' @ showNat g @ ''\<newline>''
     @ ''C: '' @ showNat c @ ''\<newline>''
     @ ''A: '' @ showNat a @ ''\<newline>''
     @ ''T: '' @ showNat t @ ''\<newline>''
     @ ''N: '' @ showNat n @ ''\<newline>''
     @ ''-----------------------------------''
     @ ''\<newline>Total: '' @ showNat tot @ ''\<newline>''"

text \<open>\<open>ofile << table.str()\<close>: the stream \<open>ofile\<close> is passed in and returned.\<close>

definition printStats :: "stats \<Rightarrow> string \<Rightarrow> string" where
  "printStats st ofile =
     (case st of (desc, c) \<Rightarrow> ofile @ table desc (G c) (C c) (A c) (T c) (N c) (total c))"

subsection \<open>getDescription\<close>

text \<open>
  \<open>ending\<close> is \<open>None\<close> while the field has never been assigned: the source declares
  \<open>Description des\<close> without an initialiser and assigns \<open>des.ending\<close> only at a line break.
\<close>

record Description =
  desc :: string
  ending :: "nat option"

text \<open>The loop of \<open>getDescription\<close>; \<open>fsize\<close> is the source's \<open>size\<close>.\<close>

function nameLoop :: "string \<Rightarrow> nat \<Rightarrow> nat \<Rightarrow> string \<Rightarrow> fault + Description" where
  "nameLoop mem i fsize name =
     (if i < fsize then
        (case byteAt mem i of
           Inl e \<Rightarrow> Inl e
         | Inr b \<Rightarrow>
             if b = CHR 0x0A then Inr \<lparr>desc = name, ending = Some i\<rparr>
             else nameLoop mem (Suc i) fsize (name @ [b]))
      else Inr \<lparr>desc = name, ending = None\<rparr>)"
  by pat_completeness auto
termination
  by (relation "measure (\<lambda>(mem, i, fsize, name). fsize - i)") auto

declare nameLoop.simps [simp del]

definition getDescription :: "string \<Rightarrow> nat \<Rightarrow> nat \<Rightarrow> fault + Description" where
  "getDescription mem start fsize = nameLoop mem start fsize []"

subsection \<open>stageCollections\<close>

text \<open>
  \<open>indicies.size() - 1\<close> in \<open>size_t\<close>: on an empty vector the subtraction wraps around.
\<close>

definition sizeMinus1 :: "nat list \<Rightarrow> nat" where
  "sizeMinus1 indicies = (if length indicies = 0 then 2 ^ 64 - 1 else length indicies - 1)"

text \<open>
  The arguments of the \<open>std::thread\<close> launched for record \<open>index\<close>: the description, the
  start \<open>des.ending\<close> and the end \<open>indicies[index + 1]\<close> of the range to count. Reading
  a \<open>des.ending\<close> that was never assigned is undefined.
\<close>

definition threadArgs :: "nat list \<Rightarrow> string \<Rightarrow> nat \<Rightarrow> nat \<Rightarrow> fault + (string \<times> nat \<times> nat)" where
  "threadArgs indicies mem fsize index =
     (case at indicies index of
        Inl e \<Rightarrow> Inl e
      | Inr b \<Rightarrow>
     (case getDescription mem b fsize of
        Inl e \<Rightarrow> Inl e
      | Inr des \<Rightarrow>
     (case ending des of
        None \<Rightarrow> Inl Indeterminate
      | Some headerEnd \<Rightarrow>
     (case at indicies (index + 1) of
        Inl e \<Rightarrow> Inl e
      | Inr nxt \<Rightarrow> Inr (desc des, headerEnd, nxt)))))"

text \<open>One launched thread: \<open>collectCounts\<close> on those arguments.\<close>

definition task :: "nat list \<Rightarrow> string \<Rightarrow> nat \<Rightarrow> nat \<Rightarrow> fault + stats" where
  "task indicies mem fsize index =
     (case threadArgs indicies mem fsize index of
        Inl e \<Rightarrow> Inl e
      | Inr (d, start, fin) \<Rightarrow> collectCounts d start fin mem)"

text \<open>
  The inner loop \<open>for (int t = 0; t < numThreads; t++)\<close> of one wave, started at \<open>i\<close>:
  \<open>threads\<close> collects what the launched threads compute, in launch order.
\<close>

function launchLoop ::
  "int \<Rightarrow> nat list \<Rightarrow> string \<Rightarrow> nat \<Rightarrow> nat \<Rightarrow> nat \<Rightarrow> stats list \<Rightarrow> nat \<Rightarrow> fault + (stats list \<times> nat)" where
  "launchLoop numThreads indicies mem fsize i t threads threadsUsed =
     (if int t < numThreads then
        (if i + t < sizeMinus1 indicies then
           (case task indicies mem fsize (i + t) of
              Inl e \<Rightarrow> Inl e
            | Inr st \<Rightarrow>
                launchLoop numThreads indicies mem fsize i (Suc t) (threads @ [st]) (threadsUsed + 1))
         else launchLoop numThreads indicies mem fsize i (Suc t) threads threadsUsed)
      else Inr (threads, threadsUsed))"
  by pat_completeness auto
termination
  by (relation "measure (\<lambda>(numThreads, indicies, mem, fsize, i, t, threads, threadsUsed).
        nat (numThreads - int t))") auto

declare launchLoop.simps [simp del]

text \<open>
  The outer loop \<open>for (BigInt i = 0; i < (indicies.size() - 1); (i += threadsUsed))\<close>.
  The threads of a wave run concurrently and each writes its block in \<open>printStats\<close>
  under the lock, so the blocks of a wave reach \<open>ofile\<close> in an order the scheduler
  picks: \<open>sched i\<close> is that order for the wave started at \<open>i\<close>. \<open>written\<close> lists the
  records in the order their blocks were written. The loop need not end, so the result
  is an option and \<open>None\<close> is a run that never returns.
\<close>

partial_function (option) dispatch ::
  "(nat \<Rightarrow> stats list \<Rightarrow> stats list) \<Rightarrow> int \<Rightarrow> nat list \<Rightarrow> string \<Rightarrow> nat \<Rightarrow> nat \<Rightarrow> stats list
     \<Rightarrow> (fault + stats list) option" where
  "dispatch sched numThreads indicies mem fsize i written =
     (if i < sizeMinus1 indicies then
        (case launchLoop numThreads indicies mem fsize i 0 [] 0 of
           Inl e \<Rightarrow> Some (Inl e)
         | Inr (threads, threadsUsed) \<Rightarrow>
             dispatch sched numThreads indicies mem fsize (i + threadsUsed)
               (written @ sched i threads))
      else Some (Inr written))"

declare dispatch.simps [code]

definition stageCollections ::
  "(nat \<Rightarrow> stats list \<Rightarrow> stats list) \<Rightarrow> int \<Rightarrow> nat list \<Rightarrow> string \<Rightarrow> nat
     \<Rightarrow> (fault + stats list) option" where
  "stageCollections sched numThreads indicies mem fsize =
     dispatch sched numThreads indicies mem fsize 0 []"

subsection \<open>processChunks and getIndicies\<close>

text \<open>
  \<open>processChunks\<close>: every offset in \<open>[start, fin)\<close> that holds \<open>'>'\<close> is pushed onto
  \<open>indicies\<close>.
\<close>

function processChunks :: "nat list \<Rightarrow> nat \<Rightarrow> nat \<Rightarrow> string \<Rightarrow> fault + nat list" where
  "processChunks indicies start fin mem =
     (if start < fin then
        (case byteAt mem start of
           Inl e \<Rightarrow> Inl e
         | Inr b \<Rightarrow>
             processChunks (if b = CHR ''>'' then indicies @ [start] else indicies)
               (Suc start) fin mem)
      else Inr indicies)"
  by pat_completeness auto
termination
  by (relation "measure (\<lambda>(indicies, start, fin, mem). fin - start)") auto

declare processChunks.simps [simp del]

text \<open>
  The chunk loop of \<open>getIndicies\<close>: \<open>chunkSize = size / numThreads\<close> divides a
  \<open>uint64_t\<close> by an \<open>int\<close>, so \<open>numThreads\<close> is first converted to \<open>uint64_t\<close>
  (a negative count becomes \<open>2 ^ 64 + numThreads\<close>), and a zero divisor is undefined.
  Then each \<open>chunk\<close> of \<open>0 .. numThreads - 1\<close> gets the range \<open>(start, end)\<close>.
\<close>

definition chunks :: "int \<Rightarrow> nat \<Rightarrow> fault + (nat \<times> nat) list" where
  "chunks numThreads fsize =
     (if numThreads = 0 then Inl DivideByZero
      else
        (let chunkSize = fsize div nat (if numThreads < 0 then 2 ^ 64 + numThreads else numThreads) in
         Inr (map (\<lambda>chunk.
                (chunk * chunkSize,
                 if int chunk = numThreads - 1 then fsize else chunk * chunkSize + chunkSize))
              [0..<nat numThreads])))"

text \<open>Joining the threads: the first fault, or every thread's result.\<close>

fun joinAll :: "(fault + 'a) list \<Rightarrow> fault + 'a list" where
  "joinAll [] = Inr []"
| "joinAll (Inl e # rs) = Inl e"
| "joinAll (Inr x # rs) = (case joinAll rs of Inl e \<Rightarrow> Inl e | Inr xs \<Rightarrow> Inr (x # xs))"

text \<open>
  \<open>getIndicies\<close>. The chunk threads push onto the one shared vector under the lock, so
  their pushes interleave as the scheduler picks: \<open>merge\<close> is that interleaving of what
  the threads found. Then the file size is pushed and the vector is sorted.
\<close>

definition getIndicies ::
  "(nat list list \<Rightarrow> nat list) \<Rightarrow> int \<Rightarrow> nat list \<Rightarrow> string \<Rightarrow> nat \<Rightarrow> fault + nat list" where
  "getIndicies merge numThreads indicies mem fsize =
     (case chunks numThreads fsize of
        Inl e \<Rightarrow> Inl e
      | Inr ranges \<Rightarrow>
     (case joinAll (map (\<lambda>(start, fin). processChunks [] start fin mem) ranges) of
        Inl e \<Rightarrow> Inl e
      | Inr found \<Rightarrow> Inr (sort (indicies @ merge found @ [fsize]))))"

subsection \<open>readFile and main\<close>

text \<open>
  What \<open>readFile\<close> does with the mapped bytes: \<open>getIndicies\<close> on an empty vector, then
  \<open>stageCollections\<close>, both with the size of the mapping.
\<close>

definition processFile ::
  "(nat list list \<Rightarrow> nat list) \<Rightarrow> (nat \<Rightarrow> stats list \<Rightarrow> stats list) \<Rightarrow> int \<Rightarrow> string
     \<Rightarrow> (fault + stats list) option" where
  "processFile merge sched numThreads mem =
     (case getIndicies merge numThreads [] mem (length mem) of
        Inl e \<Rightarrow> Some (Inl e)
      | Inr indicies \<Rightarrow> stageCollections sched numThreads indicies mem (length mem))"

text \<open>
  The process as far as the program can change it: the two standard streams, the file
  \<open>out.txt\<close> (absent until \<open>main\<close> opens it) and the exit status, which is what
  \<open>main\<close> returned or \<open>exit\<close> was passed, once the process has ended.
\<close>

record Proc =
  cerr :: string
  cout :: string
  ofile :: "string option"
  status :: "int option"

definition start0 :: Proc where
  "start0 = \<lparr>cerr = [], cout = [], ofile = None, status = None\<rparr>"

definition usageText :: string where
  "usageText = ''Usage: ./<EXECUTABLE> <PATH_TO_FASTA_FILE> <NUM_THREADS>\<newline>''"

definition usage :: "Proc \<Rightarrow> Proc" where
  "usage p = p\<lparr>cerr := cerr p @ usageText\<rparr>"

text \<open>
  \<open>readFile\<close>. Opening and mapping the file is the operating system's part:
  \<open>mmapFile file\<close> is the mapped content, or \<open>None\<close> when \<open>mmap\<close> returns
  \<open>MAP_FAILED\<close> (as it does on the descriptor of a failed \<open>open\<close>, and as POSIX has it
  do for a length of zero). \<open>exit(-1)\<close> ends the process there, with the status set.
\<close>

definition readFile ::
  "(string \<Rightarrow> string option) \<Rightarrow> (nat list list \<Rightarrow> nat list) \<Rightarrow> (nat \<Rightarrow> stats list \<Rightarrow> stats list)
     \<Rightarrow> int \<Rightarrow> string \<Rightarrow> Proc \<Rightarrow> (fault + Proc) option" where
  "readFile mmapFile merge sched numThreads file p =
     (case mmapFile file of
        None \<Rightarrow> Some (Inr (p\<lparr>cerr := cerr p @ ''mmap failed\<newline>'', status := Some (- 1)\<rparr>))
      | Some mem \<Rightarrow>
     (case processFile merge sched numThreads mem of
        None \<Rightarrow> None
      | Some (Inl e) \<Rightarrow> Some (Inl e)
      | Some (Inr written) \<Rightarrow>
          Some (Inr (p\<lparr>cout := cout p @ ''Pre-processing...\<newline>'' @ ''Done pre-processing...\<newline>''
                            @ ''Counting nucleotides...\<newline>'' @ ''Done counting nucleotides...\<newline>'',
                        ofile := map_option (\<lambda>f. fold printStats written f) (ofile p)\<rparr>))))"

text \<open>
  \<open>main\<close>. \<open>argv\<close> holds the program name and the arguments. \<open>std::stoi\<close> is the
  library's: \<open>stoi s\<close> is the parsed integer, or \<open>Inl what\<close> when it throws an exception
  whose \<open>what()\<close> is \<open>what\<close>.
\<close>

definition main ::
  "(string \<Rightarrow> string + int) \<Rightarrow> (string \<Rightarrow> string option) \<Rightarrow> (nat list list \<Rightarrow> nat list)
     \<Rightarrow> (nat \<Rightarrow> stats list \<Rightarrow> stats list) \<Rightarrow> string list \<Rightarrow> (fault + Proc) option" where
  "main stoi mmapFile merge sched argv =
     (if length argv \<noteq> 3 then Some (Inr ((usage start0)\<lparr>status := Some 0\<rparr>))
      else
        (let filePath = argv ! 1 in
         case stoi (argv ! 2) of
           Inl what \<Rightarrow>
             Some (Inr ((usage start0)
               \<lparr>cerr := cerr (usage start0) @ ''Something went wrong...\<newline>'' @ what @ ''\<newline>'',
                status := Some 0\<rparr>))
         | Inr numThreads \<Rightarrow>
             (case readFile mmapFile merge sched numThreads filePath (start0\<lparr>ofile := Some []\<rparr>) of
                None \<Rightarrow> None
              | Some (Inl e) \<Rightarrow> Some (Inl e)
              | Some (Inr p) \<Rightarrow>
                  (if status p \<noteq> None then Some (Inr p)
                   else Some (Inr (p\<lparr>cout := cout p @ ''Output is stored in file named out.txt\<newline>'',
                                     status := Some 0\<rparr>))))))"

subsection \<open>The specification's wording, for comparison\<close>

text \<open>
  The sub-ranges as the specification words them: \<open>w\<close> ranges of size
  \<open>\<lceil>size / w\<rceil>\<close>, the last one ending at the file size.
\<close>

definition specChunks :: "nat \<Rightarrow> nat \<Rightarrow> (nat \<times> nat) list" where
  "specChunks w fsize =
     map (\<lambda>k. (k * ((fsize + w - 1) div w),
                if k = w - 1 then fsize else k * ((fsize + w - 1) div w) + (fsize + w - 1) div w))
       [0..<w]"

text \<open>
  A record as the specification words it: the header is scanned from \<open>list[i]\<close> up to
  the first line break or \<open>list[i + 1]\<close>, whichever comes first, and the body range
  starts where that scan stopped and ends at \<open>list[i + 1]\<close>.
\<close>

definition specRecord :: "nat list \<Rightarrow> string \<Rightarrow> nat \<Rightarrow> string \<times> nat \<times> nat" where
  "specRecord indicies mem i =
     (let header = takeWhile (\<lambda>b. b \<noteq> CHR 0x0A) (slice mem (indicies ! i) (indicies ! (i + 1)))
      in (header, indicies ! i + length header, indicies ! (i + 1)))"

text \<open>
  What the specification says standard error holds after a failure to open or map the
  input file: the usage message, then a diagnostic message.
\<close>

definition specFailureReport :: "string \<Rightarrow> bool" where
  "specFailureReport err =
     (take (length usageText) err = usageText \<and> length usageText < length err)"

section \<open>Properties\<close>

subsection \<open>The tally of a byte range\<close>

lemma slice_step:
  "i < fin \<Longrightarrow> fin \<le> length mem \<Longrightarrow> slice mem i fin = mem ! i # slice mem (Suc i) fin"
  unfolding slice_def
  by (metis Cons_nth_drop_Suc Suc_diff_Suc less_le_trans take_Suc_Cons)

lemma slice_empty: "fin \<le> i \<Longrightarrow> slice mem i fin = []"
  by (simp add: slice_def)

lemma countLoop_fold:
  "fin \<le> length mem \<Longrightarrow> countLoop mem i fin c = Inr (fold tally (slice mem i fin) c)"
proof (induction mem i fin c rule: countLoop.induct)
  case (1 mem i fin c)
  show ?case
  proof (cases "i < fin")
    case True
    with 1 show ?thesis
      by (subst countLoop.simps) (simp add: byteAt_def slice_step)
  next
    case False
    then show ?thesis
      by (subst countLoop.simps) (simp add: slice_empty)
  qed
qed

lemma fold_tally_G: "G (fold tally bs c) = G c + count_list bs (CHR ''G'')"
  by (induction bs arbitrary: c) (simp_all add: tally_def)

lemma fold_tally_C: "C (fold tally bs c) = C c + count_list bs (CHR ''C'')"
  by (induction bs arbitrary: c) (simp_all add: tally_def)

lemma fold_tally_A: "A (fold tally bs c) = A c + count_list bs (CHR ''A'')"
  by (induction bs arbitrary: c) (simp_all add: tally_def)

lemma fold_tally_T: "T (fold tally bs c) = T c + count_list bs (CHR ''T'')"
  by (induction bs arbitrary: c) (simp_all add: tally_def)

lemma fold_tally_N: "N (fold tally bs c) = N c + count_list bs (CHR ''N'')"
  by (induction bs arbitrary: c) (simp_all add: tally_def)

lemma fold_tally_total:
  "total (fold tally bs c) = total c + count_list bs (CHR ''G'') + count_list bs (CHR ''C'')
      + count_list bs (CHR ''A'') + count_list bs (CHR ''T'') + count_list bs (CHR ''N'')"
  by (induction bs arbitrary: c) (simp_all add: tally_def)

lemma count_five:
  "count_list bs (CHR ''G'') + count_list bs (CHR ''C'') + count_list bs (CHR ''A'')
     + count_list bs (CHR ''T'') + count_list bs (CHR ''N'')
   = length (filter (\<lambda>b. b \<in> {CHR ''G'', CHR ''C'', CHR ''A'', CHR ''T'', CHR ''N''}) bs)"
  by (induction bs) auto

lemma fold_tally_noCounts:
  "fold tally bs noCounts =
     \<lparr>G = count_list bs (CHR ''G''), C = count_list bs (CHR ''C''),
      A = count_list bs (CHR ''A''), T = count_list bs (CHR ''T''),
      N = count_list bs (CHR ''N''),
      total = count_list bs (CHR ''G'') + count_list bs (CHR ''C'') + count_list bs (CHR ''A'')
        + count_list bs (CHR ''T'') + count_list bs (CHR ''N'')\<rparr>"
  by (rule Counts.equality)
     (simp_all add: fold_tally_G fold_tally_C fold_tally_A fold_tally_T fold_tally_N
        fold_tally_total noCounts_def)

lemma collectCounts_slice:
  "fin \<le> length mem \<Longrightarrow>
   collectCounts d start fin mem = Inr (d, fold tally (slice mem start fin) noCounts)"
  by (simp only: collectCounts_def countLoop_fold sum.case)

text \<open>
  C1. On a range \<open>[start, fin)\<close> with \<open>start \<le> fin \<le> size\<close>, \<open>collectCounts\<close> hands
  \<open>printStats\<close> the counters \<open>G\<close>, \<open>C\<close>, \<open>A\<close>, \<open>T\<close>, \<open>N\<close>, each the number of
  occurrences of its upper-case byte in the range, and a \<open>total\<close> that is their sum.
  That sum is the number of bytes of the range that are one of the five symbols, so
  no other byte adds to any counter.
\<close>

theorem collectCounts_tally:
  assumes "start \<le> fin" and "fin \<le> length mem"
  shows "collectCounts d start fin mem =
           Inr (d,
             \<lparr>G = count_list (slice mem start fin) (CHR ''G''),
              C = count_list (slice mem start fin) (CHR ''C''),
              A = count_list (slice mem start fin) (CHR ''A''),
              T = count_list (slice mem start fin) (CHR ''T''),
              N = count_list (slice mem start fin) (CHR ''N''),
              total = count_list (slice mem start fin) (CHR ''G'')
                + count_list (slice mem start fin) (CHR ''C'')
                + count_list (slice mem start fin) (CHR ''A'')
                + count_list (slice mem start fin) (CHR ''T'')
                + count_list (slice mem start fin) (CHR ''N'')\<rparr>)
         \<and> count_list (slice mem start fin) (CHR ''G'')
                + count_list (slice mem start fin) (CHR ''C'')
                + count_list (slice mem start fin) (CHR ''A'')
                + count_list (slice mem start fin) (CHR ''T'')
                + count_list (slice mem start fin) (CHR ''N'')
           = length (filter (\<lambda>b. b \<in> {CHR ''G'', CHR ''C'', CHR ''A'', CHR ''T'', CHR ''N''})
               (slice mem start fin))"
  using assms(2)
  by (simp only: collectCounts_def countLoop_fold fold_tally_noCounts count_five sum.case)

theorem collectCounts_tally_witness:
  "(6::nat) \<le> 16 \<and> 16 \<le> length ''>seq1\<newline>GGcCAaT TN\<newline>>s''
   \<and> collectCounts ''>seq1'' 6 16 ''>seq1\<newline>GGcCAaT TN\<newline>>s''
       = Inr (''>seq1'', \<lparr>G = 2, C = 1, A = 1, T = 2, N = 1, total = 7\<rparr>)"
  using collectCounts_tally [of 6 16 "''>seq1\<newline>GGcCAaT TN\<newline>>s''" "''>seq1''"]
  by (simp add: slice_def)

subsection \<open>The chunks and the boundary list\<close>

lemma chunks_pos:
  assumes "1 \<le> numThreads"
  shows "chunks numThreads fsize =
     Inr (map (\<lambda>k. (k * (fsize div nat numThreads),
                   if k = nat numThreads - 1 then fsize
                   else Suc k * (fsize div nat numThreads)))
            [0..<nat numThreads])"
proof -
  have "int k = numThreads - 1 \<longleftrightarrow> k = nat numThreads - 1" for k
    using assms by auto
  with assms show ?thesis
    by (simp add: chunks_def Let_def)
qed

lemma upt_chain:
  "k \<le> n \<Longrightarrow> concat (map (\<lambda>j. [j * q..<Suc j * q]) [0..<k]) = [0..<k * (q::nat)]"
proof (induction k)
  case 0
  then show ?case by simp
next
  case (Suc k)
  have "[0..<k * q] @ [k * q..<Suc k * q] = [0..<Suc k * q]"
    by (metis le_add2 mult_Suc upt_add_eq_append zero_le add.commute)
  with Suc show ?case by simp
qed

lemma chunks_cover:
  assumes "0 < w"
  shows "concat (map (\<lambda>(s, e). [s..<e])
           (map (\<lambda>k. (k * (fsize div w), if k = w - 1 then fsize else Suc k * (fsize div w)))
              [0..<w])) = [0..<fsize]"
proof -
  obtain v where w: "w = Suc v" using assms by (cases w) auto
  define q where "q = fsize div w"
  have "v * q \<le> w * q"
    by (simp add: w)
  also have "\<dots> \<le> fsize"
    by (simp add: q_def)
  finally have le: "v * q \<le> fsize" .
  have inner: "map (\<lambda>k. (k * q, if k = v then fsize else Suc k * q)) [0..<v]
        = map (\<lambda>k. (k * q, Suc k * q)) [0..<v]"
    by (rule map_cong) auto
  have "concat (map (\<lambda>(s, e). [s..<e])
           (map (\<lambda>k. (k * q, if k = w - 1 then fsize else Suc k * q)) [0..<w]))
        = concat (map (\<lambda>(s, e). [s..<e]) (map (\<lambda>k. (k * q, Suc k * q)) [0..<v]))
          @ [v * q..<fsize]"
    by (simp add: w inner del: map_map)
  also have "\<dots> = concat (map (\<lambda>j. [j * q..<Suc j * q]) [0..<v]) @ [v * q..<fsize]"
    by (simp add: comp_def)
  also have "\<dots> = [0..<v * q] @ [v * q..<fsize]"
    by (simp only: upt_chain [OF order_refl])
  also have "\<dots> = [0..<fsize]"
    using le by (metis le_Suc_ex upt_add_eq_append zero_le)
  finally show ?thesis by (simp only: q_def)
qed

lemma processChunks_filter:
  "fin \<le> length mem \<Longrightarrow>
   processChunks indicies start fin mem
     = Inr (indicies @ filter (\<lambda>i. mem ! i = CHR ''>'') [start..<fin])"
proof (induction indicies start fin mem rule: processChunks.induct)
  case (1 indicies start fin mem)
  show ?case
  proof (cases "start < fin")
    case True
    with 1 show ?thesis
      by (subst processChunks.simps) (simp add: byteAt_def upt_conv_Cons)
  next
    case False
    then show ?thesis
      by (subst processChunks.simps) simp
  qed
qed

lemma joinAll_map:
  "(\<And>x. x \<in> set xs \<Longrightarrow> f x = Inr (g x)) \<Longrightarrow> joinAll (map f xs) = Inr (map g xs)"
  by (induction xs) simp_all

lemma chunks_bounded:
  assumes "1 \<le> numThreads" and "chunks numThreads fsize = Inr rs" and "(s, e) \<in> set rs"
  shows "e \<le> fsize"
proof -
  define w where "w = nat numThreads"
  define q where "q = fsize div w"
  have w: "0 < w" using assms(1) by (simp add: w_def)
  from assms obtain k where k: "k < w" and e: "e = (if k = w - 1 then fsize else Suc k * q)"
    by (auto simp: chunks_pos w_def q_def)
  show ?thesis
  proof (cases "k = w - 1")
    case True
    with e show ?thesis by simp
  next
    case False
    with k have "Suc k \<le> w" by simp
    then have "Suc k * q \<le> w * q" by (rule mult_le_mono1)
    also have "\<dots> \<le> fsize" by (simp add: q_def)
    finally show ?thesis using e False by simp
  qed
qed

lemma concat_filter_ranges:
  "concat (map (\<lambda>(s, e). filter P [s..<e]) rs) = filter P (concat (map (\<lambda>(s, e). [s..<e]) rs))"
  by (induction rs) auto

lemma sorted_offsets:
  "sorted (filter P [0..<n] @ [n])"
  by (auto simp: sorted_append intro: sorted_filter [where f = id, simplified] sorted_upt)

lemma getIndicies_offsets:
  assumes "1 \<le> numThreads" and "fsize \<le> length mem"
    and "\<And>found. mset (merge found) = mset (concat found)"
  shows "getIndicies merge numThreads [] mem fsize
           = Inr (filter (\<lambda>i. mem ! i = CHR ''>'') [0..<fsize] @ [fsize])"
proof -
  obtain rs where rs: "chunks numThreads fsize = Inr rs"
    using assms(1) by (simp add: chunks_pos)
  have cover: "concat (map (\<lambda>(s, e). [s..<e]) rs) = [0..<fsize]"
    using rs assms(1) chunks_cover [of "nat numThreads" fsize] by (simp add: chunks_pos)
  let ?P = "\<lambda>i. mem ! i = CHR ''>''"
  have found: "joinAll (map (\<lambda>(start, fin). processChunks [] start fin mem) rs)
          = Inr (map (\<lambda>(s, e). filter ?P [s..<e]) rs)"
  proof (rule joinAll_map)
    fix x assume x: "x \<in> set rs"
    obtain s e where se: "x = (s, e)" by (cases x)
    with x chunks_bounded [OF assms(1) rs] have "e \<le> fsize" by blast
    with assms(2) have "e \<le> length mem" by simp
    then show "(case x of (start, fin) \<Rightarrow> processChunks [] start fin mem)
               = Inr (case x of (s, e) \<Rightarrow> filter ?P [s..<e])"
      by (simp add: se processChunks_filter)
  qed
  have "mset (merge (map (\<lambda>(s, e). filter ?P [s..<e]) rs) @ [fsize])
          = mset (filter ?P [0..<fsize] @ [fsize])"
    by (simp add: assms(3) concat_filter_ranges cover)
  then have "sort (merge (map (\<lambda>(s, e). filter ?P [s..<e]) rs) @ [fsize])
          = filter ?P [0..<fsize] @ [fsize]"
    using sorted_offsets [of ?P fsize] by (metis properties_for_sort)
  then show ?thesis
    by (simp add: getIndicies_def rs found)
qed

lemma mset_concat_rev: "mset (concat (rev xss)) = mset (concat xss)"
  by (induction xss) simp_all

text \<open>
  C2. With at least one worker, whatever the interleaving of the chunk threads' pushes,
  the list that \<open>getIndicies\<close> leaves after the push of the file size and the sort is
  strictly ascending and ends with the file size; on the empty file it is \<open>[0]\<close>.
\<close>

theorem getIndicies_ascending:
  assumes "1 \<le> numThreads" and "\<forall>found. mset (merge found) = mset (concat found)"
  shows "(\<exists>l. getIndicies merge numThreads [] mem (length mem) = Inr l
            \<and> sorted_wrt (<) l \<and> last l = length mem)
         \<and> getIndicies merge numThreads [] [] 0 = Inr [0]"
proof -
  let ?l = "filter (\<lambda>i. mem ! i = CHR ''>'') [0..<length mem] @ [length mem]"
  have "getIndicies merge numThreads [] mem (length mem) = Inr ?l"
    using assms by (intro getIndicies_offsets) simp_all
  moreover have "sorted_wrt (<) ?l"
    using sorted_offsets [of "\<lambda>i. mem ! i = CHR ''>''" "length mem"]
    by (simp add: strict_sorted_iff)
  moreover have "last ?l = length mem"
    by simp
  moreover have "getIndicies merge numThreads [] [] 0 = Inr [0]"
    using assms getIndicies_offsets [of numThreads 0 "[]" merge] by simp
  ultimately show ?thesis by blast
qed

theorem getIndicies_ascending_witness:
  "(\<exists>l. getIndicies (\<lambda>found. concat (rev found)) 2 [] ''>a\<newline>GG>b\<newline>T'' 9 = Inr l
        \<and> sorted_wrt (<) l \<and> last l = 9)
   \<and> getIndicies (\<lambda>found. concat (rev found)) 2 [] [] 0 = Inr [0]"
proof -
  have len: "length ''>a\<newline>GG>b\<newline>T'' = 9"
    by simp
  show ?thesis
    using getIndicies_ascending [of 2 "\<lambda>found. concat (rev found)" "''>a\<newline>GG>b\<newline>T''"]
    unfolding len by (simp add: mset_concat_rev)
qed

text \<open>
  C5, as amended. With \<open>w \<ge> 1\<close> workers the chunk loop splits \<open>[0, size)\<close> into \<open>w\<close>
  ranges: chunk \<open>k\<close> starts at \<open>k * \<lfloor>size / w\<rfloor>\<close>, every chunk but the last has
  \<open>\<lfloor>size / w\<rfloor>\<close> bytes (the floor of the quotient, not its ceiling), and the last chunk
  ends at \<open>size\<close>, taking the remainder. Laid end to end the ranges are exactly
  \<open>0, 1, \<dots>, size - 1\<close>: contiguous, disjoint, every byte in one range.
\<close>

theorem chunks_partition:
  assumes "1 \<le> numThreads"
  shows "\<exists>rs. chunks numThreads fsize = Inr rs \<and> length rs = nat numThreads
           \<and> (\<forall>k < nat numThreads. fst (rs ! k) = k * (fsize div nat numThreads))
           \<and> (\<forall>k < nat numThreads - 1. snd (rs ! k) = fst (rs ! k) + fsize div nat numThreads)
           \<and> snd (last rs) = fsize
           \<and> concat (map (\<lambda>(s, e). [s..<e]) rs) = [0..<fsize]"
proof -
  define w where "w = nat numThreads"
  define q where "q = fsize div w"
  define rs where "rs = map (\<lambda>k. (k * q, if k = w - 1 then fsize else Suc k * q)) [0..<w]"
  have w: "0 < w" using assms by (simp add: w_def)
  have "chunks numThreads fsize = Inr rs"
    using assms by (simp add: chunks_pos rs_def q_def w_def)
  moreover have "length rs = w"
    by (simp add: rs_def)
  moreover have "\<forall>k < w. fst (rs ! k) = k * q"
    by (simp add: rs_def)
  moreover have "\<forall>k < w - 1. snd (rs ! k) = fst (rs ! k) + q"
    by (simp add: rs_def)
  moreover have "snd (last rs) = fsize"
    using w by (simp add: rs_def last_map)
  moreover have "concat (map (\<lambda>(s, e). [s..<e]) rs) = [0..<fsize]"
    unfolding rs_def q_def by (rule chunks_cover [OF w])
  ultimately show ?thesis
    unfolding w_def q_def by blast
qed

theorem chunks_partition_witness:
  "\<exists>rs. chunks 3 10 = Inr rs \<and> length rs = 3
      \<and> fst (rs ! 0) = 0 \<and> fst (rs ! 1) = 3 \<and> fst (rs ! 2) = 6
      \<and> snd (rs ! 0) = 3 \<and> snd (rs ! 1) = 6 \<and> snd (last rs) = 10
      \<and> concat (map (\<lambda>(s, e). [s..<e]) rs) = [0..<10]"
proof -
  from chunks_partition [of 3 10] obtain rs where
    c: "chunks 3 10 = Inr rs" and l: "length rs = 3"
    and f: "\<forall>k < 3. fst (rs ! k) = k * 3"
    and g: "\<forall>k < 2. snd (rs ! k) = fst (rs ! k) + 3"
    and e: "snd (last rs) = 10"
    and u: "concat (map (\<lambda>(s, e). [s..<e]) rs) = [0..<10]"
    by auto
  from f have "fst (rs ! 0) = 0" and "fst (rs ! 1) = 3" and "fst (rs ! 2) = 6"
    by simp_all
  moreover from this g have "snd (rs ! 0) = 3" and "snd (rs ! 1) = 6"
    by simp_all
  ultimately show ?thesis
    using c l e u by blast
qed

text \<open>
  C5 as stated fails for \<open>size = 10\<close> and \<open>w = 3\<close>: the code's ranges have sizes
  \<open>3, 3, 4\<close>, the ranges of size \<open>\<lceil>10 / 3\<rceil> = 4\<close> would be \<open>[0, 4), [4, 8), [8, 10)\<close>.
\<close>

theorem chunks_ceiling_counterexample:
  "chunks 3 10 = Inr [(0, 3), (3, 6), (6, 10)] \<and> chunks 3 10 \<noteq> Inr (specChunks 3 10)"
  by (simp add: chunks_def specChunks_def upt_conv_Cons)

subsection \<open>The header and the body range of a record\<close>

lemma slice_append:
  "lo \<le> p \<Longrightarrow> p \<le> hi \<Longrightarrow> slice mem lo p @ slice mem p hi = slice mem lo hi"
proof -
  assume a: "lo \<le> p" "p \<le> hi"
  have "take ((p - lo) + (hi - p)) (drop lo mem)
          = take (p - lo) (drop lo mem) @ take (hi - p) (drop (p - lo) (drop lo mem))"
    by (rule take_add)
  with a show ?thesis by (simp add: slice_def)
qed

lemma length_slice: "hi \<le> length mem \<Longrightarrow> length (slice mem lo hi) = hi - lo"
  by (simp add: slice_def)

lemma nth_slice: "hi \<le> length mem \<Longrightarrow> k < hi - lo \<Longrightarrow> slice mem lo hi ! k = mem ! (lo + k)"
  by (simp add: slice_def)

lemma slice_all:
  assumes "hi \<le> length mem" and "\<forall>j. lo \<le> j \<and> j < hi \<longrightarrow> P (mem ! j)"
  shows "\<forall>x \<in> set (slice mem lo hi). P x"
proof
  fix x assume "x \<in> set (slice mem lo hi)"
  then obtain k where k: "k < hi - lo" and x: "x = slice mem lo hi ! k"
    using assms(1) by (auto simp: in_set_conv_nth length_slice)
  with assms show "P x"
    by (simp add: nth_slice)
qed

lemma nameLoop_found:
  assumes "i \<le> p" and "p < fsize" and "fsize \<le> length mem" and "mem ! p = CHR 0x0A"
    and "\<forall>j. i \<le> j \<and> j < p \<longrightarrow> mem ! j \<noteq> CHR 0x0A"
  shows "nameLoop mem i fsize name = Inr \<lparr>desc = name @ slice mem i p, ending = Some p\<rparr>"
  using assms
proof (induction mem i fsize name rule: nameLoop.induct)
  case (1 mem i fsize name)
  show ?case
  proof (cases "i = p")
    case True
    with 1 show ?thesis
      by (subst nameLoop.simps) (simp add: byteAt_def slice_empty)
  next
    case False
    with 1 have lt: "i < p" and ne: "mem ! i \<noteq> CHR 0x0A" and p: "p \<le> length mem"
      by auto
    have "nameLoop mem (Suc i) fsize (name @ [mem ! i])
            = Inr \<lparr>desc = (name @ [mem ! i]) @ slice mem (Suc i) p, ending = Some p\<rparr>"
      using 1 lt ne by (intro "1.IH") (auto simp: byteAt_def)
    then show ?thesis
      using 1 lt ne p by (subst nameLoop.simps) (simp add: byteAt_def slice_step)
  qed
qed

lemma nameLoop_none:
  assumes "fsize \<le> length mem"
    and "\<forall>j. i \<le> j \<and> j < fsize \<longrightarrow> mem ! j \<noteq> CHR 0x0A"
  shows "nameLoop mem i fsize name = Inr \<lparr>desc = name @ slice mem i fsize, ending = None\<rparr>"
  using assms
proof (induction mem i fsize name rule: nameLoop.induct)
  case (1 mem i fsize name)
  show ?case
  proof (cases "i < fsize")
    case False
    then show ?thesis
      by (subst nameLoop.simps) (simp add: slice_empty)
  next
    case True
    with 1 have ne: "mem ! i \<noteq> CHR 0x0A" by auto
    have "nameLoop mem (Suc i) fsize (name @ [mem ! i])
            = Inr \<lparr>desc = (name @ [mem ! i]) @ slice mem (Suc i) fsize, ending = None\<rparr>"
      using 1 True ne by (intro "1.IH") (auto simp: byteAt_def)
    then show ?thesis
      using 1 True ne by (subst nameLoop.simps) (simp add: byteAt_def slice_step)
  qed
qed

lemma takeWhile_slice:
  assumes "lo \<le> p" and "p \<le> hi" and "p < length mem" and "mem ! p = CHR 0x0A"
    and "\<forall>j. lo \<le> j \<and> j < p \<longrightarrow> mem ! j \<noteq> CHR 0x0A"
  shows "takeWhile (\<lambda>b. b \<noteq> CHR 0x0A) (slice mem lo hi) = slice mem lo p"
proof -
  have all: "\<forall>x \<in> set (slice mem lo p). x \<noteq> CHR 0x0A"
    using assms by (intro slice_all) auto
  have rest: "takeWhile (\<lambda>b. b \<noteq> CHR 0x0A) (slice mem p hi) = []"
  proof (cases "p < hi")
    case True
    then have "slice mem p hi = mem ! p # slice mem (Suc p) hi"
      using assms(3) unfolding slice_def
      by (metis Cons_nth_drop_Suc Suc_diff_Suc take_Suc_Cons)
    with assms(4) show ?thesis by simp
  next
    case False
    then show ?thesis by (simp add: slice_empty)
  qed
  have "takeWhile (\<lambda>b. b \<noteq> CHR 0x0A) (slice mem lo p @ slice mem p hi) = slice mem lo p"
    using all rest by (simp add: takeWhile_append2)
  then show ?thesis
    using assms(1,2) by (simp add: slice_append)
qed

lemma threadArgs_line_break:
  assumes "index + 1 < length indicies" and "fsize \<le> length mem"
    and "indicies ! index \<le> p" and "p < fsize" and "mem ! p = CHR 0x0A"
    and "\<forall>j. indicies ! index \<le> j \<and> j < p \<longrightarrow> mem ! j \<noteq> CHR 0x0A"
  shows "threadArgs indicies mem fsize index
           = Inr (slice mem (indicies ! index) p, p, indicies ! (index + 1))"
proof -
  have "getDescription mem (indicies ! index) fsize
             = Inr \<lparr>desc = slice mem (indicies ! index) p, ending = Some p\<rparr>"
    using assms nameLoop_found [of "indicies ! index" p fsize mem "[]"]
    by (simp add: getDescription_def)
  then show ?thesis
    using assms(1) by (simp add: threadArgs_def at_def)
qed

text \<open>
  C3, as amended. For record \<open>index\<close> (the boundary list has an entry after it), when
  the file has a line break at or after \<open>list[index]\<close> and \<open>p\<close> is the first such
  position, the header text is the bytes from \<open>list[index]\<close> up to, not including, \<open>p\<close>
  (the scan is bounded by the file size, not by \<open>list[index + 1]\<close>), and the range
  handed to \<open>collectCounts\<close> starts at \<open>p\<close> and ends at \<open>list[index + 1]\<close>. When that
  line break is not after \<open>list[index + 1]\<close>, this is the record as the specification
  words it.
\<close>

theorem threadArgs_record:
  assumes "index + 1 < length indicies" and "fsize \<le> length mem"
    and "indicies ! index \<le> p" and "p < fsize" and "mem ! p = CHR 0x0A"
    and "\<forall>j. indicies ! index \<le> j \<and> j < p \<longrightarrow> mem ! j \<noteq> CHR 0x0A"
  shows "threadArgs indicies mem fsize index
           = Inr (slice mem (indicies ! index) p, p, indicies ! (index + 1))
         \<and> (p \<le> indicies ! (index + 1) \<longrightarrow>
              threadArgs indicies mem fsize index = Inr (specRecord indicies mem index))"
proof -
  have args: "threadArgs indicies mem fsize index
           = Inr (slice mem (indicies ! index) p, p, indicies ! (index + 1))"
    using assms by (rule threadArgs_line_break)
  have "specRecord indicies mem index = (slice mem (indicies ! index) p, p, indicies ! (index + 1))"
    if "p \<le> indicies ! (index + 1)"
  proof -
    have "takeWhile (\<lambda>b. b \<noteq> CHR 0x0A) (slice mem (indicies ! index) (indicies ! (index + 1)))
            = slice mem (indicies ! index) p"
      using assms that by (intro takeWhile_slice) auto
    moreover have "length (slice mem (indicies ! index) p) = p - indicies ! index"
      using assms by (intro length_slice) auto
    ultimately show ?thesis
      using assms(3) by (simp add: specRecord_def Let_def)
  qed
  with args show ?thesis by simp
qed

theorem threadArgs_record_witness:
  "threadArgs [0, 11, 17] ''>s1\<newline>GGCCAA\<newline>>s2\<newline>NN\<newline>'' 17 0 = Inr (''>s1'', 3, 11)
   \<and> threadArgs [0, 11, 17] ''>s1\<newline>GGCCAA\<newline>>s2\<newline>NN\<newline>'' 17 0
       = Inr (specRecord [0, 11, 17] ''>s1\<newline>GGCCAA\<newline>>s2\<newline>NN\<newline>'' 0)"
proof -
  have h: "\<forall>j. [0, 11, 17] ! 0 \<le> j \<and> j < 3
             \<longrightarrow> ''>s1\<newline>GGCCAA\<newline>>s2\<newline>NN\<newline>'' ! j \<noteq> CHR 0x0A"
    by (simp add: numeral_3_eq_3 less_Suc_eq)
  show ?thesis
    using threadArgs_record [of 0 "[0, 11, 17]" 17 "''>s1\<newline>GGCCAA\<newline>>s2\<newline>NN\<newline>''" 3, OF _ _ _ _ _ h]
    by (simp add: slice_def specRecord_def)
qed

text \<open>
  With no line break from \<open>list[index]\<close> to the end of the file the loop of
  \<open>getDescription\<close> never assigns \<open>des.ending\<close>, and the launch reads it unassigned.
\<close>

lemma threadArgs_unassigned:
  assumes "index < length indicies" and "fsize \<le> length mem"
    and "\<forall>j. indicies ! index \<le> j \<and> j < fsize \<longrightarrow> mem ! j \<noteq> CHR 0x0A"
  shows "threadArgs indicies mem fsize index = Inl Indeterminate"
  using assms nameLoop_none [of fsize mem "indicies ! index" "[]"]
  by (simp add: threadArgs_def at_def getDescription_def)

text \<open>
  C3 as stated fails on the file \<open>>a>b\nGG\<close>, whose boundary list is \<open>[0, 2, 7]\<close>: the
  header line of record 0 holds a second \<open>'>'\<close>, the scan runs past \<open>list[1] = 2\<close> to the
  line break at 4, so the header is \<open>>a>b\<close> and the range handed on is \<open>(4, 2)\<close>, while
  the specification's record has the header \<open>>a\<close> and the range \<open>(2, 2)\<close>.
\<close>

theorem threadArgs_header_counterexample:
  "getIndicies concat 1 [] ''>a>b\<newline>GG'' 7 = Inr [0, 2, 7]
   \<and> threadArgs [0, 2, 7] ''>a>b\<newline>GG'' 7 0 = Inr (''>a>b'', 4, 2)
   \<and> specRecord [0, 2, 7] ''>a>b\<newline>GG'' 0 = (''>a'', 2, 2)
   \<and> threadArgs [0, 2, 7] ''>a>b\<newline>GG'' 7 0 \<noteq> Inr (specRecord [0, 2, 7] ''>a>b\<newline>GG'' 0)"
  by code_simp

subsection \<open>The waves of the dispatcher\<close>

lemma joinAll_append:
  "joinAll (rs @ rs') =
     (case joinAll rs of
        Inl e \<Rightarrow> Inl e
      | Inr xs \<Rightarrow> (case joinAll rs' of Inl e \<Rightarrow> Inl e | Inr ys \<Rightarrow> Inr (xs @ ys)))"
proof (induction rs)
  case Nil
  show ?case by (simp split: sum.split)
next
  case (Cons r rs)
  then show ?case by (cases r) (simp_all split: sum.split)
qed

lemma joinAll_length: "joinAll rs = Inr xs \<Longrightarrow> length xs = length rs"
proof (induction rs arbitrary: xs)
  case Nil
  then show ?case by simp
next
  case (Cons r rs)
  then show ?case by (cases r) (auto split: sum.splits)
qed

lemma launchLoop_wave:
  "launchLoop numThreads indicies mem fsize i t threads threadsUsed =
     (case joinAll (map (task indicies mem fsize)
                      [i + t..<min (i + nat numThreads) (sizeMinus1 indicies)]) of
        Inl e \<Rightarrow> Inl e
      | Inr sts \<Rightarrow> Inr (threads @ sts, threadsUsed + length sts))"
proof (induction numThreads indicies mem fsize i t threads threadsUsed rule: launchLoop.induct)
  case (1 numThreads indicies mem fsize i t threads threadsUsed)
  let ?m = "min (i + nat numThreads) (sizeMinus1 indicies)"
  show ?case
  proof (cases "int t < numThreads")
    case False
    then have "[i + t..<?m] = []" by simp
    with False show ?thesis
      by (subst launchLoop.simps) simp
  next
    case t: True
    show ?thesis
    proof (cases "i + t < sizeMinus1 indicies")
      case False
      then have e: "[i + t..<?m] = []" and e': "[i + Suc t..<?m] = []" by simp_all
      from "1.IH"(2) [OF t False] e' e t False show ?thesis
        by (subst launchLoop.simps) simp
    next
      case True
      with t have "i + t < ?m" by simp
      then have u: "[i + t..<?m] = (i + t) # [i + Suc t..<?m]"
        by (simp add: upt_conv_Cons)
      show ?thesis
      proof (cases "task indicies mem fsize (i + t)")
        case (Inl e)
        with t True u show ?thesis
          by (subst launchLoop.simps) simp
      next
        case (Inr st)
        from "1.IH"(1) [OF t True Inr] t True u Inr show ?thesis
          by (subst launchLoop.simps) (simp split: sum.split)
      qed
    qed
  qed
qed

lemma launchLoop_idle:
  "numThreads \<le> 0 \<Longrightarrow> launchLoop numThreads indicies mem fsize i 0 [] 0 = Inr ([], 0)"
  by (simp add: launchLoop_wave)

lemma dispatch_Some_progress:
  "dispatch sched numThreads indicies mem fsize i written = Some y \<Longrightarrow>
   \<not> (numThreads \<le> 0 \<and> i < sizeMinus1 indicies)"
proof (induction rule: dispatch.raw_induct [rotated 1, consumes 1])
  case (1 dispatch sched numThreads indicies mem fsize i written y)
  show ?case
  proof
    assume a: "numThreads \<le> 0 \<and> i < sizeMinus1 indicies"
    with "1.hyps" have "dispatch sched numThreads indicies mem fsize i (written @ sched i []) = Some y"
      by (simp add: launchLoop_idle)
    from "1.IH" [OF this] a show False by simp
  qed
qed

lemma dispatch_stuck:
  assumes "numThreads \<le> 0" and "i < sizeMinus1 indicies"
  shows "dispatch sched numThreads indicies mem fsize i written = None"
proof (cases "dispatch sched numThreads indicies mem fsize i written")
  case None
  then show ?thesis .
next
  case (Some y)
  from dispatch_Some_progress [OF this] assms show ?thesis by simp
qed

lemma dispatch_result:
  assumes "1 \<le> numThreads" and "\<forall>i xs. mset (sched i xs) = mset xs"
  shows "\<exists>r. dispatch sched numThreads indicies mem fsize i written = Some r
           \<and> rel_sum (=) (\<lambda>out sts. mset out = mset written + mset sts) r
                (joinAll (map (task indicies mem fsize) [i..<sizeMinus1 indicies]))"
proof (induction "sizeMinus1 indicies - i" arbitrary: i written rule: less_induct)
  case less
  let ?n = "sizeMinus1 indicies"
  let ?m = "min (i + nat numThreads) ?n"
  show ?case
  proof (cases "i < ?n")
    case False
    then show ?thesis
      by (subst dispatch.simps) simp
  next
    case True
    with assms(1) have im: "i < ?m" and mn: "?m \<le> ?n" by simp_all
    have split: "[i..<?n] = [i..<?m] @ [?m..<?n]"
      using im mn by (metis less_imp_le_nat le_Suc_ex upt_add_eq_append)
    show ?thesis
    proof (cases "joinAll (map (task indicies mem fsize) [i..<?m])")
      case (Inl e)
      then have "joinAll (map (task indicies mem fsize) [i..<?n]) = Inl e"
        by (simp only: split map_append joinAll_append sum.case)
      with True Inl show ?thesis
        by (subst dispatch.simps) (simp add: launchLoop_wave)
    next
      case (Inr sts)
      then have len: "length sts = ?m - i"
        using joinAll_length by fastforce
      with im have next_i: "i + length sts = ?m" by simp
      have "?n - ?m < ?n - i" using im True by (rule diff_less_mono2)
      from less [OF this, of "written @ sched i sts"]
      obtain r where r: "dispatch sched numThreads indicies mem fsize ?m (written @ sched i sts) = Some r"
        and rel: "rel_sum (=) (\<lambda>out sts'. mset out = mset (written @ sched i sts) + mset sts') r
                    (joinAll (map (task indicies mem fsize) [?m..<?n]))"
        by blast
      have step: "dispatch sched numThreads indicies mem fsize i written = Some r"
        using True Inr r next_i
        by (subst dispatch.simps) (simp add: launchLoop_wave)
      have whole: "joinAll (map (task indicies mem fsize) [i..<?n])
                     = (case joinAll (map (task indicies mem fsize) [?m..<?n]) of
                          Inl e \<Rightarrow> Inl e | Inr ys \<Rightarrow> Inr (sts @ ys))"
        using Inr by (simp only: split map_append joinAll_append sum.case)
      have "rel_sum (=) (\<lambda>out sts'. mset out = mset written + mset sts') r
              (joinAll (map (task indicies mem fsize) [i..<?n]))"
        using rel assms(2) unfolding whole
        by (cases "joinAll (map (task indicies mem fsize) [?m..<?n])"; cases r) auto
      with step show ?thesis by blast
    qed
  qed
qed

lemma sizeMinus1_nonempty: "indicies \<noteq> [] \<Longrightarrow> sizeMinus1 indicies = length indicies - 1"
  by (simp add: sizeMinus1_def)

lemma stageCollections_result:
  assumes "1 \<le> numThreads" and "\<forall>i xs. mset (sched i xs) = mset xs"
  shows "\<exists>r. stageCollections sched numThreads indicies mem fsize = Some r
           \<and> rel_sum (=) (\<lambda>written sts. mset written = mset sts) r
                (joinAll (map (task indicies mem fsize) [0..<sizeMinus1 indicies]))"
  using dispatch_result [OF assms, of indicies mem fsize 0 "[]"]
  by (simp add: stageCollections_def)

lemma stageCollections_each_record:
  assumes "indicies \<noteq> []" and "1 \<le> numThreads" and "\<forall>i xs. mset (sched i xs) = mset xs"
  shows "\<exists>r. stageCollections sched numThreads indicies mem fsize = Some r
            \<and> rel_sum (=) (\<lambda>written sts. mset written = mset sts) r
                 (joinAll (map (task indicies mem fsize) [0..<length indicies - 1]))"
    using stageCollections_result [OF assms(2,3), of indicies mem fsize] assms(1)
    by (simp add: sizeMinus1_nonempty)

lemma launchLoop_progress:
  assumes "indicies \<noteq> []" and "1 \<le> numThreads"
    and a: "i < length indicies - 1"
     "launchLoop numThreads indicies mem fsize i 0 [] 0 = Inr (threads, threadsUsed)"
  shows "1 \<le> threadsUsed \<and> i + threadsUsed \<le> length indicies - 1"
proof -
  define m where "m = min (i + nat numThreads) (length indicies - 1)"
  from a(2) assms(1) obtain sts where
    sts: "joinAll (map (task indicies mem fsize) [i..<m]) = Inr sts" and u: "threadsUsed = length sts"
    unfolding launchLoop_wave m_def
    by (cases "joinAll (map (task indicies mem fsize) [i..<min (i + nat numThreads) (length indicies - 1)])")
       (simp_all add: sizeMinus1_nonempty)
  from joinAll_length [OF sts] have len: "threadsUsed = m - i" by (simp add: u)
  have "i < m" using a assms(2) by (simp add: m_def)
  moreover have "m \<le> length indicies - 1" by (simp add: m_def)
  ultimately show ?thesis
    unfolding len by linarith
qed

lemma stageCollections_stuck:
  assumes "w \<le> 0" and "2 \<le> length indicies"
  shows "stageCollections sched w indicies mem fsize = None"
proof -
  from assms(2) have "0 < sizeMinus1 indicies"
    by (simp add: sizeMinus1_def)
  with assms(1) show ?thesis
    unfolding stageCollections_def by (intro dispatch_stuck)
qed

text \<open>
  C10. On a boundary list (never empty: it holds the file size) and with at least one
  worker, whatever order the scheduler picks in each wave, the wave loop returns, and
  unless a thread ran into undefined behaviour the records written are, up to their
  order, the records of the indices \<open>0 .. n - 2\<close>, each once. Progress: a wave started
  at \<open>i < n - 1\<close> that launches its threads has \<open>threadsUsed \<ge> 1\<close> and ends at most at
  \<open>n - 1\<close>. With a worker count that is not positive a wave launches nothing
  (\<open>threadsUsed = 0\<close>), and as soon as there is a record the loop never returns.
\<close>

theorem stageCollections_terminates:
  assumes "indicies \<noteq> []" and "1 \<le> numThreads" and "\<forall>i xs. mset (sched i xs) = mset xs"
  shows "(\<exists>r. stageCollections sched numThreads indicies mem fsize = Some r
            \<and> rel_sum (=) (\<lambda>written sts. mset written = mset sts) r
                 (joinAll (map (task indicies mem fsize) [0..<length indicies - 1])))
         \<and> (\<forall>i threads threadsUsed.
               i < length indicies - 1
               \<and> launchLoop numThreads indicies mem fsize i 0 [] 0 = Inr (threads, threadsUsed)
               \<longrightarrow> 1 \<le> threadsUsed \<and> i + threadsUsed \<le> length indicies - 1)
         \<and> (\<forall>w i. w \<le> 0 \<longrightarrow> launchLoop w indicies mem fsize i 0 [] 0 = Inr ([], 0))
         \<and> (\<forall>w. w \<le> 0 \<and> 2 \<le> length indicies
               \<longrightarrow> stageCollections sched w indicies mem fsize = None)"
proof -
  have "\<exists>r. stageCollections sched numThreads indicies mem fsize = Some r
            \<and> rel_sum (=) (\<lambda>written sts. mset written = mset sts) r
                 (joinAll (map (task indicies mem fsize) [0..<length indicies - 1]))"
    using assms by (rule stageCollections_each_record)
  moreover have "\<forall>i threads threadsUsed.
               i < length indicies - 1
               \<and> launchLoop numThreads indicies mem fsize i 0 [] 0 = Inr (threads, threadsUsed)
               \<longrightarrow> 1 \<le> threadsUsed \<and> i + threadsUsed \<le> length indicies - 1"
    using launchLoop_progress [OF assms(1,2)] by blast
  moreover have "\<forall>w i. w \<le> 0 \<longrightarrow> launchLoop w indicies mem fsize i 0 [] 0 = Inr ([], 0)"
    by (simp add: launchLoop_idle)
  moreover have "\<forall>w. w \<le> 0 \<and> 2 \<le> length indicies
               \<longrightarrow> stageCollections sched w indicies mem fsize = None"
    by (simp add: stageCollections_stuck)
  ultimately show ?thesis by (intro conjI)
qed

theorem stageCollections_terminates_witness:
  "stageCollections (\<lambda>i. rev) 2 [0, 11, 17] ''>s1\<newline>GGCCAA\<newline>>s2\<newline>NN\<newline>'' 17
     = Some (Inr [(''>s2'', \<lparr>G = 0, C = 0, A = 0, T = 0, N = 2, total = 2\<rparr>),
                  (''>s1'', \<lparr>G = 2, C = 2, A = 2, T = 0, N = 0, total = 6\<rparr>)])
   \<and> (\<exists>r. stageCollections (\<lambda>i. rev) 2 [0, 11, 17] ''>s1\<newline>GGCCAA\<newline>>s2\<newline>NN\<newline>'' 17 = Some r
        \<and> rel_sum (=) (\<lambda>written sts. mset written = mset sts) r
             (joinAll (map (task [0, 11, 17] ''>s1\<newline>GGCCAA\<newline>>s2\<newline>NN\<newline>'' 17)
                [0..<length [0, 11, 17 :: nat] - 1])))
   \<and> launchLoop 2 [0, 11, 17] ''>s1\<newline>GGCCAA\<newline>>s2\<newline>NN\<newline>'' 17 0 0 [] 0
       = Inr ([(''>s1'', \<lparr>G = 2, C = 2, A = 2, T = 0, N = 0, total = 6\<rparr>),
               (''>s2'', \<lparr>G = 0, C = 0, A = 0, T = 0, N = 2, total = 2\<rparr>)], 2)
   \<and> (1::nat) \<le> 2 \<and> (0::nat) + 2 \<le> length [0, 11, 17 :: nat] - 1
   \<and> launchLoop 0 [0, 11, 17] ''>s1\<newline>GGCCAA\<newline>>s2\<newline>NN\<newline>'' 17 0 0 [] 0 = Inr ([], 0)
   \<and> stageCollections (\<lambda>i. rev) 0 [0, 11, 17] ''>s1\<newline>GGCCAA\<newline>>s2\<newline>NN\<newline>'' 17 = None"
proof -
  have h1: "[0, 11, 17 :: nat] \<noteq> []" and h2: "(1::int) \<le> 2"
    and h3: "\<forall>i xs. mset ((\<lambda>i. rev) i xs) = mset (xs :: stats list)"
    by simp_all
  note t = stageCollections_terminates
    [of "[0, 11, 17]" 2 "\<lambda>i. rev" "''>s1\<newline>GGCCAA\<newline>>s2\<newline>NN\<newline>''" 17, OF h1 h2 h3]
  note t1 = t [THEN conjunct1]
  note t2 = t [THEN conjunct2, THEN conjunct1, rule_format]
  note t3 = t [THEN conjunct2, THEN conjunct2, THEN conjunct1, rule_format, of 0 0]
  note t4 = t [THEN conjunct2, THEN conjunct2, THEN conjunct2, rule_format, of 0]
  have run: "stageCollections (\<lambda>i. rev) 2 [0, 11, 17] ''>s1\<newline>GGCCAA\<newline>>s2\<newline>NN\<newline>'' 17
     = Some (Inr [(''>s2'', \<lparr>G = 0, C = 0, A = 0, T = 0, N = 2, total = 2\<rparr>),
                  (''>s1'', \<lparr>G = 2, C = 2, A = 2, T = 0, N = 0, total = 6\<rparr>)])"
    by code_simp
  have wave: "launchLoop 2 [0, 11, 17] ''>s1\<newline>GGCCAA\<newline>>s2\<newline>NN\<newline>'' 17 0 0 [] 0
       = Inr ([(''>s1'', \<lparr>G = 2, C = 2, A = 2, T = 0, N = 0, total = 6\<rparr>),
               (''>s2'', \<lparr>G = 0, C = 0, A = 0, T = 0, N = 2, total = 2\<rparr>)], 2)"
    by code_simp
  have progress: "(1::nat) \<le> 2 \<and> (0::nat) + 2 \<le> length [0, 11, 17 :: nat] - 1"
    by (rule t2 [OF conjI [OF _ wave]]) simp
  have idle: "launchLoop 0 [0, 11, 17] ''>s1\<newline>GGCCAA\<newline>>s2\<newline>NN\<newline>'' 17 0 0 [] 0 = Inr ([], 0)"
    by (rule t3) simp
  have stuck: "stageCollections (\<lambda>i. rev) 0 [0, 11, 17] ''>s1\<newline>GGCCAA\<newline>>s2\<newline>NN\<newline>'' 17 = None"
    by (rule t4) simp
  from progress have p1: "(1::nat) \<le> 2" and p2: "(0::nat) + 2 \<le> length [0, 11, 17 :: nat] - 1"
    by (rule conjunct1, rule conjunct2)
  from run t1 wave p1 p2 idle stuck show ?thesis by (intro conjI)
qed

subsection \<open>The worker count and the result\<close>

lemma processFile_result:
  assumes "1 \<le> numThreads" and "\<forall>found. mset (merge found) = mset (concat found)"
    and "\<forall>i xs. mset (sched i xs) = mset xs"
  shows "\<exists>r. processFile merge sched numThreads mem = Some r
           \<and> rel_sum (=) (\<lambda>written sts. mset written = mset sts) r
                (joinAll (map (task (filter (\<lambda>i. mem ! i = CHR ''>'') [0..<length mem] @ [length mem])
                                 mem (length mem))
                   [0..<length (filter (\<lambda>i. mem ! i = CHR ''>'') [0..<length mem])]))"
proof -
  let ?l = "filter (\<lambda>i. mem ! i = CHR ''>'') [0..<length mem] @ [length mem]"
  have l: "getIndicies merge numThreads [] mem (length mem) = Inr ?l"
    using assms(1,2) by (intro getIndicies_offsets) simp_all
  have "?l \<noteq> []" by simp
  from stageCollections_each_record [OF this assms(1,3), of mem "length mem"] l
  show ?thesis
    by (simp add: processFile_def)
qed

lemma joinAll_all_Inr:
  "\<forall>x \<in> set xs. \<exists>y. f x = Inr y \<Longrightarrow> \<exists>ys. joinAll (map f xs) = Inr ys"
proof (induction xs)
  case Nil
  show ?case by simp
next
  case (Cons x xs)
  then obtain y ys where "f x = Inr y" and "joinAll (map f xs) = Inr ys"
    by auto
  then show ?case by simp
qed

lemma task_line_break:
  assumes "mem \<noteq> []" and "last mem = CHR 0x0A"
    and "index < length (filter (\<lambda>i. mem ! i = CHR ''>'') [0..<length mem])"
  shows "\<exists>st. task (filter (\<lambda>i. mem ! i = CHR ''>'') [0..<length mem] @ [length mem])
               mem (length mem) index = Inr st"
proof -
  let ?ms = "filter (\<lambda>i. mem ! i = CHR ''>'') [0..<length mem]"
  let ?l = "?ms @ [length mem]"
  define b where "b = ?l ! index"
  have "?ms ! index \<in> set ?ms"
    using assms(3) by (rule nth_mem)
  then have b: "b < length mem"
    using assms(3) by (simp add: b_def nth_append)
  have nxt: "?l ! (index + 1) \<le> length mem"
  proof -
    have "?l ! (index + 1) \<in> set ?l"
      using assms(3) by (intro nth_mem) simp
    then show ?thesis by auto
  qed
  have lastnl: "mem ! (length mem - 1) = CHR 0x0A"
    using assms(1,2) by (simp add: last_conv_nth)
  define p where "p = (LEAST q. b \<le> q \<and> mem ! q = CHR 0x0A)"
  have ex: "b \<le> length mem - 1 \<and> mem ! (length mem - 1) = CHR 0x0A"
    using b lastnl by simp
  have p1: "b \<le> p \<and> mem ! p = CHR 0x0A"
    unfolding p_def by (rule LeastI [of "\<lambda>q. b \<le> q \<and> mem ! q = CHR 0x0A", OF ex])
  have p2: "p \<le> length mem - 1"
    unfolding p_def by (rule Least_le [of "\<lambda>q. b \<le> q \<and> mem ! q = CHR 0x0A", OF ex])
  have p3: "\<forall>j. b \<le> j \<and> j < p \<longrightarrow> mem ! j \<noteq> CHR 0x0A"
    using not_less_Least [of _ "\<lambda>q. b \<le> q \<and> mem ! q = CHR 0x0A"] unfolding p_def by blast
  have plt: "p < length mem"
    using p2 b by simp
  have "threadArgs ?l mem (length mem) index = Inr (slice mem (?l ! index) p, p, ?l ! (index + 1))"
    using assms(3) p1 p3 plt unfolding b_def
    by (intro threadArgs_line_break) simp_all
  then show ?thesis
    using nxt by (simp add: task_def collectCounts_slice)
qed

lemma processFile_completes:
  assumes "1 \<le> numThreads" and "\<forall>found. mset (merge found) = mset (concat found)"
    and "\<forall>i xs. mset (sched i xs) = mset xs"
    and "mem \<noteq> []" and "last mem = CHR 0x0A"
  shows "\<exists>written. processFile merge sched numThreads mem = Some (Inr written)"
proof -
  let ?ms = "filter (\<lambda>i. mem ! i = CHR ''>'') [0..<length mem]"
  have "\<forall>index \<in> set [0..<length ?ms]. \<exists>st. task (?ms @ [length mem]) mem (length mem) index = Inr st"
    using task_line_break [OF assms(4,5)] by simp
  then obtain sts where sts: "joinAll (map (task (?ms @ [length mem]) mem (length mem)) [0..<length ?ms]) = Inr sts"
    using joinAll_all_Inr by blast
  from processFile_result [OF assms(1,2,3), of mem] obtain r where
    r: "processFile merge sched numThreads mem = Some r"
    and rel: "rel_sum (=) (\<lambda>written sts. mset written = mset sts) r
                (joinAll (map (task (?ms @ [length mem]) mem (length mem)) [0..<length ?ms]))"
    by blast
  from rel sts obtain written where "r = Inr written"
    by (cases r) simp_all
  with r show ?thesis by simp
qed

lemma rel_sum_same:
  assumes "rel_sum (=) (\<lambda>written sts. mset written = mset sts) r1 j"
    and "rel_sum (=) (\<lambda>written sts. mset written = mset sts) r2 j"
  shows "rel_sum (=) (\<lambda>a b. mset a = mset b) r1 r2"
  using assms by (cases r1; cases r2; cases j) simp_all

text \<open>
  Where no launch reads a \<open>des.ending\<close> that was never assigned, the worker count and
  the scheduler do not change the result: for any two worker counts \<open>w1, w2 \<ge> 1\<close> both
  runs return, either with the same multiset of records (header and the six counters
  each) or both at that undefined read. On a file that ends with a line break there is
  no such read, and both runs write their records.
\<close>

lemma processFile_worker_invariant:
  assumes "1 \<le> w1" and "1 \<le> w2"
    and "\<forall>found. mset (merge1 found) = mset (concat found)"
    and "\<forall>found. mset (merge2 found) = mset (concat found)"
    and "\<forall>i xs. mset (sched1 i xs) = mset xs"
    and "\<forall>i xs. mset (sched2 i xs) = mset xs"
  shows "\<exists>r1 r2. processFile merge1 sched1 w1 mem = Some r1
           \<and> processFile merge2 sched2 w2 mem = Some r2
           \<and> rel_sum (=) (\<lambda>a b. mset a = mset b) r1 r2
           \<and> (mem \<noteq> [] \<and> last mem = CHR 0x0A \<longrightarrow> (\<exists>a b. r1 = Inr a \<and> r2 = Inr b))"
proof -
  let ?j = "joinAll (map (task (filter (\<lambda>i. mem ! i = CHR ''>'') [0..<length mem] @ [length mem])
                                 mem (length mem))
                   [0..<length (filter (\<lambda>i. mem ! i = CHR ''>'') [0..<length mem])])"
  from processFile_result [OF assms(1,3,5), of mem] obtain r1 where
    r1: "processFile merge1 sched1 w1 mem = Some r1"
    and j1: "rel_sum (=) (\<lambda>written sts. mset written = mset sts) r1 ?j"
    by blast
  from processFile_result [OF assms(2,4,6), of mem] obtain r2 where
    r2: "processFile merge2 sched2 w2 mem = Some r2"
    and j2: "rel_sum (=) (\<lambda>written sts. mset written = mset sts) r2 ?j"
    by blast
  have same: "rel_sum (=) (\<lambda>a b. mset a = mset b) r1 r2"
    using j1 j2 by (rule rel_sum_same)
  have "\<exists>a b. r1 = Inr a \<and> r2 = Inr b" if "mem \<noteq> [] \<and> last mem = CHR 0x0A"
  proof -
    from that processFile_completes [OF assms(1,3,5), of mem] r1
    obtain a where "r1 = Inr a" by auto
    moreover from that processFile_completes [OF assms(2,4,6), of mem] r2
    obtain b where "r2 = Inr b" by auto
    ultimately show ?thesis by blast
  qed
  with r1 r2 same show ?thesis by blast
qed

lemma processFile_worker_invariant_example:
  "processFile concat (\<lambda>i xs. xs) 1 ''>s1\<newline>GGCCAA\<newline>>s2\<newline>NN\<newline>''
     = Some (Inr [(''>s1'', \<lparr>G = 2, C = 2, A = 2, T = 0, N = 0, total = 6\<rparr>),
                  (''>s2'', \<lparr>G = 0, C = 0, A = 0, T = 0, N = 2, total = 2\<rparr>)])
   \<and> processFile (\<lambda>found. concat (rev found)) (\<lambda>i. rev) 3 ''>s1\<newline>GGCCAA\<newline>>s2\<newline>NN\<newline>''
     = Some (Inr [(''>s2'', \<lparr>G = 0, C = 0, A = 0, T = 0, N = 2, total = 2\<rparr>),
                  (''>s1'', \<lparr>G = 2, C = 2, A = 2, T = 0, N = 0, total = 6\<rparr>)])
   \<and> (\<exists>r1 r2. processFile concat (\<lambda>i xs. xs) 1 ''>s1\<newline>GGCCAA\<newline>>s2\<newline>NN\<newline>'' = Some r1
          \<and> processFile (\<lambda>found. concat (rev found)) (\<lambda>i. rev) 3 ''>s1\<newline>GGCCAA\<newline>>s2\<newline>NN\<newline>'' = Some r2
          \<and> rel_sum (=) (\<lambda>a b. mset a = mset b) r1 r2
          \<and> (\<exists>a b. r1 = Inr a \<and> r2 = Inr b))"
proof -
  have h: "(1::int) \<le> 1" "(1::int) \<le> 3"
    "\<forall>found. mset (concat found) = mset (concat (found :: nat list list))"
    "\<forall>found. mset (concat (rev found)) = mset (concat (found :: nat list list))"
    "\<forall>i xs. mset ((\<lambda>i xs. xs) (i::nat) xs) = mset (xs :: stats list)"
    "\<forall>i xs. mset ((\<lambda>i. rev) (i::nat) xs) = mset (xs :: stats list)"
    by (simp_all add: mset_concat_rev)
  have nl: "''>s1\<newline>GGCCAA\<newline>>s2\<newline>NN\<newline>'' \<noteq> [] \<and> last ''>s1\<newline>GGCCAA\<newline>>s2\<newline>NN\<newline>'' = CHR 0x0A"
    by simp
  have one: "processFile concat (\<lambda>i xs. xs) 1 ''>s1\<newline>GGCCAA\<newline>>s2\<newline>NN\<newline>''
     = Some (Inr [(''>s1'', \<lparr>G = 2, C = 2, A = 2, T = 0, N = 0, total = 6\<rparr>),
                  (''>s2'', \<lparr>G = 0, C = 0, A = 0, T = 0, N = 2, total = 2\<rparr>)])"
    by code_simp
  have three: "processFile (\<lambda>found. concat (rev found)) (\<lambda>i. rev) 3 ''>s1\<newline>GGCCAA\<newline>>s2\<newline>NN\<newline>''
     = Some (Inr [(''>s2'', \<lparr>G = 0, C = 0, A = 0, T = 0, N = 2, total = 2\<rparr>),
                  (''>s1'', \<lparr>G = 2, C = 2, A = 2, T = 0, N = 0, total = 6\<rparr>)])"
    by code_simp
  from processFile_worker_invariant [OF h, of "''>s1\<newline>GGCCAA\<newline>>s2\<newline>NN\<newline>''"] nl
  have "\<exists>r1 r2. processFile concat (\<lambda>i xs. xs) 1 ''>s1\<newline>GGCCAA\<newline>>s2\<newline>NN\<newline>'' = Some r1
          \<and> processFile (\<lambda>found. concat (rev found)) (\<lambda>i. rev) 3 ''>s1\<newline>GGCCAA\<newline>>s2\<newline>NN\<newline>'' = Some r2
          \<and> rel_sum (=) (\<lambda>a b. mset a = mset b) r1 r2
          \<and> (\<exists>a b. r1 = Inr a \<and> r2 = Inr b)"
    by blast
  with one three show ?thesis by (intro conjI)
qed

text \<open>
  C4. The results are not the same for every file: the code has a defect here. On the
  file \<open>>s1\nGG\n>s2\<close>, whose last header has no line break after it, the boundary
  list is \<open>[0, 7, 10]\<close> and for record 1 the loop of \<open>getDescription\<close> ends without
  assigning \<open>des.ending\<close>. \<open>stageCollections\<close> reads the field all the same and hands
  it to \<open>collectCounts\<close> as the start of the range, so the run is undefined with one
  worker and with three, and the counts written for \<open>>s2\<close> follow whatever the field
  holds: from 7, the start of the record, they are all 0; from 3, the line break
  of the header before, \<open>G\<close> is 2.
\<close>

theorem unassigned_ending_counts:
  "getIndicies concat 1 [] ''>s1\<newline>GG\<newline>>s2'' 10 = Inr [0, 7, 10]
   \<and> getDescription ''>s1\<newline>GG\<newline>>s2'' 7 10 = Inr \<lparr>desc = ''>s2'', ending = None\<rparr>
   \<and> threadArgs [0, 7, 10] ''>s1\<newline>GG\<newline>>s2'' 10 1 = Inl Indeterminate
   \<and> processFile concat (\<lambda>i xs. xs) 1 ''>s1\<newline>GG\<newline>>s2'' = Some (Inl Indeterminate)
   \<and> processFile concat (\<lambda>i xs. xs) 3 ''>s1\<newline>GG\<newline>>s2'' = Some (Inl Indeterminate)
   \<and> collectCounts ''>s2'' 7 10 ''>s1\<newline>GG\<newline>>s2''
       = Inr (''>s2'', \<lparr>G = 0, C = 0, A = 0, T = 0, N = 0, total = 0\<rparr>)
   \<and> collectCounts ''>s2'' 3 10 ''>s1\<newline>GG\<newline>>s2''
       = Inr (''>s2'', \<lparr>G = 2, C = 0, A = 0, T = 0, N = 0, total = 2\<rparr>)"
  by code_simp

subsection \<open>Files without a marker, the worker count zero, and the exits of main\<close>

lemma no_marker_offsets:
  "CHR ''>'' \<notin> set mem \<Longrightarrow> filter (\<lambda>i. mem ! i = CHR ''>'') [0..<length mem] = []"
  by (auto simp: filter_empty_conv) (metis nth_mem)

lemma getIndicies_negative:
  assumes "numThreads < 0" and "merge [] = []"
  shows "getIndicies merge numThreads [] mem fsize = Inr [fsize]"
  using assms by (simp add: getIndicies_def chunks_def)

lemma getIndicies_no_marker:
  assumes "CHR ''>'' \<notin> set mem" and "numThreads \<noteq> 0"
    and "\<forall>found. mset (merge found) = mset (concat found)"
  shows "getIndicies merge numThreads [] mem (length mem) = Inr [length mem]"
proof (cases "numThreads < 0")
  case True
  from assms(3) have "mset (merge []) = mset (concat [])" by blast
  then have "merge [] = []" by simp
  with True show ?thesis by (rule getIndicies_negative)
next
  case False
  with assms(2) have "1 \<le> numThreads" by simp
  then have "getIndicies merge numThreads [] mem (length mem)
               = Inr (filter (\<lambda>i. mem ! i = CHR ''>'') [0..<length mem] @ [length mem])"
    using assms(3) by (intro getIndicies_offsets) simp_all
  with assms(1) show ?thesis by (simp add: no_marker_offsets)
qed

lemma stageCollections_single:
  "stageCollections sched numThreads [b] mem fsize = Some (Inr [])"
  unfolding stageCollections_def
  by (subst dispatch.simps) (simp add: sizeMinus1_def)

lemma main_run:
  assumes "length argv = 3" and "stoi (argv ! 2) = Inr numThreads"
    and "mmapFile (argv ! 1) = Some mem"
    and "processFile merge sched numThreads mem = Some (Inr written)"
  shows "main stoi mmapFile merge sched argv =
           Some (Inr \<lparr>cerr = [],
                      cout = ''Pre-processing...\<newline>'' @ ''Done pre-processing...\<newline>''
                        @ ''Counting nucleotides...\<newline>'' @ ''Done counting nucleotides...\<newline>''
                        @ ''Output is stored in file named out.txt\<newline>'',
                      ofile = Some (fold printStats written []),
                      status = Some 0\<rparr>)"
  using assms by (simp add: main_def readFile_def start0_def)

text \<open>
  The run of the specification's scenario: two records, one worker.
\<close>

lemma main_scenario:
  "main (\<lambda>s. Inr 1) (\<lambda>f. Some ''>seq1\<newline>GGCCAATT\<newline>>seq2\<newline>NNNN\<newline>'') concat (\<lambda>i xs. xs)
      [''./bio-util'', ''two.fa'', ''1'']
   = Some (Inr \<lparr>cerr = [],
        cout = ''Pre-processing...\<newline>Done pre-processing...\<newline>Counting nucleotides...\<newline>''
          @ ''Done counting nucleotides...\<newline>Output is stored in file named out.txt\<newline>'',
        ofile = Some (''\<newline>>seq1\<newline>\<newline>G: 2\<newline>C: 2\<newline>A: 2\<newline>T: 2\<newline>N: 0\<newline>''
                 @ ''-----------------------------------\<newline>Total: 8\<newline>''
                 @ ''\<newline>>seq2\<newline>\<newline>G: 0\<newline>C: 0\<newline>A: 0\<newline>T: 0\<newline>N: 4\<newline>''
                 @ ''-----------------------------------\<newline>Total: 4\<newline>''),
        status = Some 0\<rparr>)"
  by code_simp

text \<open>
  C6. On a file with no \<open>'>'\<close> (the empty file is one), with a worker count other
  than zero, the boundary list is just the file size, so its length is below 2; the
  dispatcher returns at once with no record; and the run of \<open>main\<close> on such a file
  leaves \<open>out.txt\<close> empty.
\<close>

theorem no_marker_no_records:
  assumes "CHR ''>'' \<notin> set mem" and "numThreads \<noteq> 0"
    and "\<forall>found. mset (merge found) = mset (concat found)"
  shows "getIndicies merge numThreads [] mem (length mem) = Inr [length mem]
         \<and> length [length mem] < 2
         \<and> stageCollections sched numThreads [length mem] mem (length mem) = Some (Inr [])
         \<and> processFile merge sched numThreads mem = Some (Inr [])
         \<and> (\<forall>stoi mmapFile argv.
               length argv = 3 \<and> stoi (argv ! 2) = Inr numThreads \<and> mmapFile (argv ! 1) = Some mem
               \<longrightarrow> (\<exists>p. main stoi mmapFile merge sched argv = Some (Inr p)
                        \<and> ofile p = Some [] \<and> status p = Some 0))"
proof -
  have l: "getIndicies merge numThreads [] mem (length mem) = Inr [length mem]"
    using assms by (rule getIndicies_no_marker)
  have s: "stageCollections sched numThreads [length mem] mem (length mem) = Some (Inr [])"
    by (rule stageCollections_single)
  have p: "processFile merge sched numThreads mem = Some (Inr [])"
    by (simp add: processFile_def l s)
  have "\<exists>p. main stoi mmapFile merge sched argv = Some (Inr p)
              \<and> ofile p = Some [] \<and> status p = Some 0"
    if "length argv = 3 \<and> stoi (argv ! 2) = Inr numThreads \<and> mmapFile (argv ! 1) = Some mem"
    for stoi mmapFile argv
    using that main_run [of argv stoi numThreads mmapFile mem merge sched "[]", OF _ _ _ p]
    by simp
  with l s p show ?thesis by simp
qed

theorem no_marker_no_records_witness:
  "getIndicies concat 2 [] ''acgt\<newline>GG\<newline>'' (length ''acgt\<newline>GG\<newline>'') = Inr [length ''acgt\<newline>GG\<newline>'']
   \<and> stageCollections (\<lambda>i xs. xs) 2 [length ''acgt\<newline>GG\<newline>''] ''acgt\<newline>GG\<newline>'' (length ''acgt\<newline>GG\<newline>'')
       = Some (Inr [])
   \<and> processFile concat (\<lambda>i xs. xs) 2 ''acgt\<newline>GG\<newline>'' = Some (Inr [])
   \<and> processFile concat (\<lambda>i xs. xs) 2 [] = Some (Inr [])
   \<and> (\<exists>p. main (\<lambda>s. Inr 2) (\<lambda>f. Some ''acgt\<newline>GG\<newline>'') concat (\<lambda>i xs. xs)
               [''./bio-util'', ''plain.txt'', ''2''] = Some (Inr p)
          \<and> ofile p = Some [] \<and> status p = Some 0)"
proof -
  have h: "\<forall>found. mset (concat found) = mset (concat (found :: nat list list))"
    by simp
  have a: "CHR ''>'' \<notin> set ''acgt\<newline>GG\<newline>''" and b: "CHR ''>'' \<notin> set []" and c: "(2::int) \<noteq> 0"
    by simp_all
  note t = no_marker_no_records [OF a c h, of "\<lambda>i xs. xs"]
  note e = no_marker_no_records [OF b c h, of "\<lambda>i xs. xs"]
  from t have t1: "getIndicies concat 2 [] ''acgt\<newline>GG\<newline>'' (length ''acgt\<newline>GG\<newline>'') = Inr [length ''acgt\<newline>GG\<newline>'']"
    by (rule conjunct1)
  from t have t3: "stageCollections (\<lambda>i xs. xs) 2 [length ''acgt\<newline>GG\<newline>''] ''acgt\<newline>GG\<newline>'' (length ''acgt\<newline>GG\<newline>'')
       = Some (Inr [])"
    by (rule conjunct2 [THEN conjunct2, THEN conjunct1])
  from t have t4: "processFile concat (\<lambda>i xs. xs) 2 ''acgt\<newline>GG\<newline>'' = Some (Inr [])"
    by (rule conjunct2 [THEN conjunct2, THEN conjunct2, THEN conjunct1])
  from e have e4: "processFile concat (\<lambda>i xs. xs) 2 [] = Some (Inr [])"
    by (rule conjunct2 [THEN conjunct2, THEN conjunct2, THEN conjunct1])
  have t5: "\<exists>p. main (\<lambda>s. Inr 2) (\<lambda>f. Some ''acgt\<newline>GG\<newline>'') concat (\<lambda>i xs. xs)
               [''./bio-util'', ''plain.txt'', ''2''] = Some (Inr p)
          \<and> ofile p = Some [] \<and> status p = Some 0"
    by (rule t [THEN conjunct2, THEN conjunct2, THEN conjunct2, THEN conjunct2, rule_format]) simp
  from t1 t3 t4 e4 t5 show ?thesis by (intro conjI)
qed

lemma chunks_fault: "chunks numThreads fsize = Inl DivideByZero \<longleftrightarrow> numThreads = 0"
  by (simp add: chunks_def Let_def)

lemma getIndicies_zero: "getIndicies merge 0 indicies mem fsize = Inl DivideByZero"
  by (simp add: getIndicies_def chunks_def)

text \<open>
  C9, as amended. The division \<open>size / numThreads\<close> has no guard, and it is undefined
  exactly when the worker count is zero: with the count 0 \<open>getIndicies\<close> divides by
  zero on every file, and \<open>main\<close> hands it whatever \<open>std::stoi\<close> returned, unchecked.
\<close>

theorem chunk_division_unguarded:
  "(chunks numThreads fsize = Inl DivideByZero \<longleftrightarrow> numThreads = 0)
   \<and> getIndicies merge 0 indicies mem fsize = Inl DivideByZero
   \<and> (length argv = 3 \<and> stoi (argv ! 2) = Inr 0 \<and> mmapFile (argv ! 1) = Some mem
        \<longrightarrow> main stoi mmapFile merge sched argv = Some (Inl DivideByZero))"
  by (simp add: chunks_fault getIndicies_zero main_def readFile_def processFile_def)

theorem chunk_division_unguarded_witness:
  "chunks 0 17 = Inl DivideByZero
   \<and> chunks 2 17 \<noteq> Inl DivideByZero
   \<and> getIndicies concat 0 [] ''>s1\<newline>GG\<newline>'' 7 = Inl DivideByZero
   \<and> main (\<lambda>s. Inr 0) (\<lambda>f. Some ''>s1\<newline>GG\<newline>'') concat (\<lambda>i xs. xs)
        [''./bio-util'', ''one.fa'', ''0''] = Some (Inl DivideByZero)"
proof -
  have a: "chunks 0 17 = Inl DivideByZero"
    using chunk_division_unguarded [THEN conjunct1, of 0 17] by simp
  have b: "chunks 2 17 \<noteq> Inl DivideByZero"
    using chunk_division_unguarded [THEN conjunct1, of 2 17] by simp
  have c: "getIndicies concat 0 [] ''>s1\<newline>GG\<newline>'' 7 = Inl DivideByZero"
    by (rule chunk_division_unguarded [THEN conjunct2, THEN conjunct1])
  have d: "main (\<lambda>s. Inr 0) (\<lambda>f. Some ''>s1\<newline>GG\<newline>'') concat (\<lambda>i xs. xs)
        [''./bio-util'', ''one.fa'', ''0''] = Some (Inl DivideByZero)"
    by (rule chunk_division_unguarded [THEN conjunct2, THEN conjunct2, rule_format]) simp
  from a b c d show ?thesis by (intro conjI)
qed

text \<open>
  C9 as stated says the division is defined only for a worker count of at least 1. With
  the count \<open>-1\<close> it is defined: the divisor is \<open>2 ^ 64 - 1\<close>, the chunk loop runs
  zero times, the boundary list is the file size alone and the run ends with no record.
\<close>

theorem negative_count_division_counterexample:
  "chunks (- 1) 2 = Inr []
   \<and> getIndicies concat (- 1) [] ''>a'' 2 = Inr [2]
   \<and> processFile concat (\<lambda>i xs. xs) (- 1) ''>a'' = Some (Inr [])"
proof -
  have a: "chunks (- 1) 2 = Inr []"
    by (simp add: chunks_def)
  have b: "getIndicies concat (- 1) [] ''>a'' 2 = Inr [2]"
    by (simp add: getIndicies_def a)
  have len: "length ''>a'' = 2"
    by simp
  have "processFile concat (\<lambda>i xs. xs) (- 1) ''>a'' = Some (Inr [])"
    unfolding processFile_def len b by (simp add: stageCollections_single)
  with a b show ?thesis by (intro conjI)
qed

text \<open>
  C7, as amended. With an argument count other than 3 \<open>main\<close> prints the usage text to
  standard error and returns 0 without touching any file. When \<open>std::stoi\<close> throws on
  the worker count it prints the usage text, \<open>Something went wrong...\<close> and the
  exception's message, and returns 0. When the input file cannot be opened or mapped
  it prints only \<open>mmap failed\<close> (no usage text) and exits with the status \<open>-1\<close>.
\<close>

theorem main_exits:
  "(length argv \<noteq> 3 \<longrightarrow>
      main stoi mmapFile merge sched argv
        = Some (Inr \<lparr>cerr = usageText, cout = [], ofile = None, status = Some 0\<rparr>))
   \<and> (length argv = 3 \<and> stoi (argv ! 2) = Inl what \<longrightarrow>
      main stoi mmapFile merge sched argv
        = Some (Inr \<lparr>cerr = usageText @ ''Something went wrong...\<newline>'' @ what @ ''\<newline>'',
                     cout = [], ofile = None, status = Some 0\<rparr>))
   \<and> (length argv = 3 \<and> stoi (argv ! 2) = Inr n \<and> mmapFile (argv ! 1) = None \<longrightarrow>
      main stoi mmapFile merge sched argv
        = Some (Inr \<lparr>cerr = ''mmap failed\<newline>'', cout = [], ofile = Some [],
                     status = Some (- 1)\<rparr>))"
  by (simp add: main_def readFile_def usage_def start0_def)

theorem main_exits_witness:
  "main (\<lambda>s. Inr 2) (\<lambda>f. None) concat (\<lambda>i xs. xs) [''./bio-util'']
     = Some (Inr \<lparr>cerr = usageText, cout = [], ofile = None, status = Some 0\<rparr>)
   \<and> main (\<lambda>s. Inl ''stoi'') (\<lambda>f. None) concat (\<lambda>i xs. xs) [''./bio-util'', ''one.fa'', ''two'']
     = Some (Inr \<lparr>cerr = usageText @ ''Something went wrong...\<newline>'' @ ''stoi'' @ ''\<newline>'',
                  cout = [], ofile = None, status = Some 0\<rparr>)
   \<and> main (\<lambda>s. Inr 2) (\<lambda>f. None) concat (\<lambda>i xs. xs) [''./bio-util'', ''missing.fa'', ''2'']
     = Some (Inr \<lparr>cerr = ''mmap failed\<newline>'', cout = [], ofile = Some [], status = Some (- 1)\<rparr>)"
proof -
  have a: "main (\<lambda>s. Inr 2) (\<lambda>f. None) concat (\<lambda>i xs. xs) [''./bio-util'']
     = Some (Inr \<lparr>cerr = usageText, cout = [], ofile = None, status = Some 0\<rparr>)"
    by (rule main_exits [THEN conjunct1, rule_format]) simp
  have b: "main (\<lambda>s. Inl ''stoi'') (\<lambda>f. None) concat (\<lambda>i xs. xs) [''./bio-util'', ''one.fa'', ''two'']
     = Some (Inr \<lparr>cerr = usageText @ ''Something went wrong...\<newline>'' @ ''stoi'' @ ''\<newline>'',
                  cout = [], ofile = None, status = Some 0\<rparr>)"
    by (rule main_exits [THEN conjunct2, THEN conjunct1, rule_format]) simp
  have c: "main (\<lambda>s. Inr 2) (\<lambda>f. None) concat (\<lambda>i xs. xs) [''./bio-util'', ''missing.fa'', ''2'']
     = Some (Inr \<lparr>cerr = ''mmap failed\<newline>'', cout = [], ofile = Some [], status = Some (- 1)\<rparr>)"
    by (rule main_exits [THEN conjunct2, THEN conjunct2, rule_format, of _ _ 2]) simp
  from a b c show ?thesis by (intro conjI)
qed

text \<open>
  C7 as stated fails when the mapping fails: standard error holds \<open>mmap failed\<close> and
  nothing else, not the usage message followed by a diagnostic.
\<close>

theorem mmap_failure_counterexample:
  "main (\<lambda>s. Inr 2) (\<lambda>f. None) concat (\<lambda>i xs. xs) [''./bio-util'', ''missing.fa'', ''2'']
     = Some (Inr \<lparr>cerr = ''mmap failed\<newline>'', cout = [], ofile = Some [], status = Some (- 1)\<rparr>)
   \<and> \<not> specFailureReport ''mmap failed\<newline>''"
  by (simp add: main_def readFile_def start0_def specFailureReport_def usageText_def)

end
